theory Spec2Isabelle
  imports Main "HOL-Library.Sublist"
begin

section \<open>String primitives of the host language\<close>

text \<open>
  The scanner of \<^verbatim>\<open>src/server/routes.ts\<close> (class \<^verbatim>\<open>PythonParser\<close>) works on
  JavaScript strings. A string is modelled as a \<^typ>\<open>char list\<close>, one \<^typ>\<open>char\<close> per
  code unit; the model therefore covers the code units \<open>0 .. 255\<close>. The white space
  that \<^verbatim>\<open>String.prototype.trim\<close> strips and that the regular-expression class
  \<^verbatim>\<open>\s\<close> matches is, in that range: TAB, LF, VT, FF, CR, SPACE and NBSP.
\<close>

definition is_space :: "char \<Rightarrow> bool" where
  "is_space c \<longleftrightarrow>
     c \<in> {CHR 0x09, CHR 0x0A, CHR 0x0B, CHR 0x0C, CHR 0x0D, CHR 0x20, CHR 0xA0}"

text \<open>\<^verbatim>\<open>s.trim()\<close>\<close>

definition trim :: "string \<Rightarrow> string" where
  "trim s = rev (dropWhile is_space (rev (dropWhile is_space s)))"

text \<open>\<^verbatim>\<open>code.split('\n')\<close>: never empty, the empty string gives one empty line.\<close>

fun split_nl :: "string \<Rightarrow> string list" where
  "split_nl [] = [[]]"
| "split_nl (c # cs) =
     (if c = CHR 0x0A then [] # split_nl cs
      else (case split_nl cs of
              [] \<Rightarrow> [[c]]
            | l # ls \<Rightarrow> (c # l) # ls))"

text \<open>\<^verbatim>\<open>result.join('\n')\<close>\<close>

fun join_nl :: "string list \<Rightarrow> string" where
  "join_nl [] = []"
| "join_nl [l] = l"
| "join_nl (l # ls) = l @ CHR 0x0A # join_nl ls"

text \<open>\<^verbatim>\<open>s.startsWith(p)\<close>, \<^verbatim>\<open>s.endsWith(p)\<close>, \<^verbatim>\<open>s.includes(':')\<close>\<close>

definition startsWith :: "string \<Rightarrow> string \<Rightarrow> bool" where
  "startsWith s p \<longleftrightarrow> prefix p s"

definition endsWith :: "string \<Rightarrow> string \<Rightarrow> bool" where
  "endsWith s p \<longleftrightarrow> suffix p s"

definition includesColon :: "string \<Rightarrow> bool" where
  "includesColon s \<longleftrightarrow> CHR 0x3A \<in> set s"

text \<open>The two docstring delimiters: three double quotes, three single quotes.\<close>

definition tripleDouble :: string where
  "tripleDouble = [CHR 0x22, CHR 0x22, CHR 0x22]"

definition tripleSingle :: string where
  "tripleSingle = [CHR 0x27, CHR 0x27, CHR 0x27]"

text \<open>Template-literal rendering of a line number: its decimal digits.\<close>

definition digit :: "nat \<Rightarrow> char" where
  "digit d = char_of (48 + d)"

function show_nat :: "nat \<Rightarrow> string" where
  "show_nat n = (if n < 10 then [digit n] else show_nat (n div 10) @ [digit (n mod 10)])"
  by pat_completeness auto
termination
  by (relation "measure id") auto

declare show_nat.simps [simp del]

section \<open>\<^verbatim>\<open>PythonParser.getIndentLevel\<close>\<close>

text \<open>\<^verbatim>\<open>line.match(/^(\s*)/)\<close> always matches; the group is the leading white space.\<close>

definition getIndentLevel :: "string \<Rightarrow> nat" where
  "getIndentLevel line = length (takeWhile is_space line)"

section \<open>\<^verbatim>\<open>PythonParser.parseFunctions\<close>\<close>

text \<open>
  The character classes \<^verbatim>\<open>[a-zA-Z_]\<close> and \<^verbatim>\<open>[a-zA-Z0-9_]\<close> of the definition
  pattern.
\<close>

definition is_ident_start :: "char \<Rightarrow> bool" where
  "is_ident_start c \<longleftrightarrow>
     c \<in> set ''abcdefghijklmnopqrstuvwxyzABCDEFGHIJKLMNOPQRSTUVWXYZ_''"

definition is_ident_char :: "char \<Rightarrow> bool" where
  "is_ident_char c \<longleftrightarrow> is_ident_start c \<or> c \<in> set ''0123456789''"

text \<open>
  \<^verbatim>\<open>line.match(/^def\s+([a-zA-Z_][a-zA-Z0-9_]*)\s*\(/)\<close>, giving the captured
  group. The classes of consecutive pattern items are disjoint, so the greedy
  match is the only one and no backtracking can find another.
\<close>

definition functionMatch :: "string \<Rightarrow> string option" where
  "functionMatch line =
     (if startsWith line ''def'' then
        (let rest = drop 3 line;
             afterSpace = dropWhile is_space rest
         in if takeWhile is_space rest = [] then None
            else (case afterSpace of
                    [] \<Rightarrow> None
                  | c # cs \<Rightarrow>
                      if is_ident_start c then
                        (case dropWhile is_space (dropWhile is_ident_char cs) of
                           [] \<Rightarrow> None
                         | p # _ \<Rightarrow>
                             if p = CHR 0x28 then Some (c # takeWhile is_ident_char cs)
                             else None)
                      else None))
      else None)"

text \<open>
  The body-end scan, \<^verbatim>\<open>for (let j = i + 1; j < lines.length; j++)\<close>, with the
  variable \<^verbatim>\<open>endLine\<close> threaded through; \<^verbatim>\<open>break\<close> returns it.
\<close>

definition blockStart :: "string \<Rightarrow> bool" where
  "blockStart t \<longleftrightarrow>
     startsWith t ''def '' \<or> startsWith t ''class '' \<or> startsWith t ''if __name__''"

function findEnd :: "string list \<Rightarrow> nat \<Rightarrow> nat \<Rightarrow> nat \<Rightarrow> nat" where
  "findEnd lines indentLevel j endLine =
     (if j < length lines then
        (if trim (lines ! j) = [] then findEnd lines indentLevel (j + 1) endLine
         else if getIndentLevel (lines ! j) \<le> indentLevel \<and> blockStart (trim (lines ! j))
              then j
              else findEnd lines indentLevel (j + 1) (j + 1))
      else endLine)"
  by pat_completeness auto
termination
  by (relation "measure (\<lambda>(lines, indentLevel, j, endLine). length lines - j)") auto

declare findEnd.simps [simp del]

text \<open>
  \<^verbatim>\<open>(s.match(/\(/g) || []).length - (s.match(/\)/g) || []).length\<close>
\<close>

definition parenDelta :: "string \<Rightarrow> int" where
  "parenDelta s = int (count_list s (CHR 0x28)) - int (count_list s (CHR 0x29))"

text \<open>
  Signature reassembly, \<^verbatim>\<open>while (j < lines.length && (parenCount > 0 ||
  !signature.includes(':')))\<close>.
\<close>

function readSignature :: "string list \<Rightarrow> nat \<Rightarrow> string \<Rightarrow> int \<Rightarrow> string" where
  "readSignature lines j sig parenCount =
     (if j < length lines \<and> (parenCount > 0 \<or> \<not> includesColon sig) then
        readSignature lines (j + 1) (sig @ '' '' @ trim (lines ! j))
          (parenCount + parenDelta (trim (lines ! j)))
      else sig)"
  by pat_completeness auto
termination
  by (relation "measure (\<lambda>(lines, j, sig, parenCount). length lines - j)") auto

declare readSignature.simps [simp del]

text \<open>
  The descriptor pushed for a matched line \<open>i\<close>. \<^verbatim>\<open>signature.replace(':', '')\<close>
  has a string pattern, so it removes the first colon only.
\<close>

record PythonFunction =
  name :: string
  startLine :: nat
  endLine :: nat
  signature :: string
  hasDocstring :: bool

definition nextHasDocstring :: "string list \<Rightarrow> nat \<Rightarrow> bool" where
  "nextHasDocstring lines i \<longleftrightarrow>
     i + 1 < length lines \<and>
     (startsWith (trim (lines ! (i + 1))) tripleDouble \<or>
      startsWith (trim (lines ! (i + 1))) tripleSingle)"

definition descriptor :: "string list \<Rightarrow> nat \<Rightarrow> string \<Rightarrow> PythonFunction" where
  "descriptor lines i functionName =
     \<lparr> name = functionName,
       startLine = i + 1,
       endLine = findEnd lines (getIndentLevel (lines ! i)) (i + 1) (i + 1),
       signature =
         remove1 (CHR 0x3A)
           (readSignature lines (i + 1) (trim (lines ! i)) (parenDelta (trim (lines ! i)))),
       hasDocstring = nextHasDocstring lines i \<rparr>"

text \<open>The outer loop \<^verbatim>\<open>for (let i = 0; i < lines.length; i++)\<close>.\<close>

function parseLoop :: "string list \<Rightarrow> nat \<Rightarrow> PythonFunction list" where
  "parseLoop lines i =
     (if i < length lines then
        (case functionMatch (trim (lines ! i)) of
           None \<Rightarrow> parseLoop lines (i + 1)
         | Some functionName \<Rightarrow> descriptor lines i functionName # parseLoop lines (i + 1))
      else [])"
  by pat_completeness auto
termination
  by (relation "measure (\<lambda>(lines, i). length lines - i)") auto

declare parseLoop.simps [simp del]

definition parseFunctions :: "string \<Rightarrow> PythonFunction list" where
  "parseFunctions code = parseLoop (split_nl code) 0"

section \<open>\<^verbatim>\<open>PythonParser.validatePythonSyntax\<close>\<close>

record Counts =
  parenCount :: int
  bracketCount :: int
  braceCount :: int

record ValidationResult =
  isValid :: bool
  error :: "string option"

text \<open>\<^verbatim>\<open>let parenCount = 0; let bracketCount = 0; let braceCount = 0;\<close>\<close>

definition zeroCounts :: Counts where
  "zeroCounts = \<lparr> parenCount = 0, bracketCount = 0, braceCount = 0 \<rparr>"

text \<open>The chain \<^verbatim>\<open>if (char === '(') parenCount++; else if ...\<close>\<close>

definition countChar :: "char \<Rightarrow> Counts \<Rightarrow> Counts" where
  "countChar c k =
     (if c = CHR 0x28 then k\<lparr>parenCount := parenCount k + 1\<rparr>
      else if c = CHR 0x29 then k\<lparr>parenCount := parenCount k - 1\<rparr>
      else if c = CHR 0x5B then k\<lparr>bracketCount := bracketCount k + 1\<rparr>
      else if c = CHR 0x5D then k\<lparr>bracketCount := bracketCount k - 1\<rparr>
      else if c = CHR 0x7B then k\<lparr>braceCount := braceCount k + 1\<rparr>
      else if c = CHR 0x7D then k\<lparr>braceCount := braceCount k - 1\<rparr>
      else k)"

text \<open>
  The character loop over \<^verbatim>\<open>trimmed\<close>. \<^verbatim>\<open>stringChar\<close> is a string, empty or
  one quote character. \<^verbatim>\<open>inComment\<close> is set only on the way to \<^verbatim>\<open>break\<close>, so
  it is false wherever the loop body tests it, and the model has no variable for it.
\<close>

fun scanChars :: "string \<Rightarrow> bool \<Rightarrow> string \<Rightarrow> Counts \<Rightarrow> Counts" where
  "scanChars [] inString stringChar k = k"
| "scanChars (c # cs) inString stringChar k =
     (if \<not> inString \<and> c = CHR 0x23 then k
      else if c = CHR 0x22 \<or> c = CHR 0x27 then
        (if \<not> inString then scanChars cs True [c] k
         else if [c] = stringChar then scanChars cs False [] (countChar c k)
         else scanChars cs inString stringChar k)
      else scanChars cs inString stringChar (if \<not> inString then countChar c k else k))"

text \<open>
  \<^verbatim>\<open>while (nextNonEmptyLine < lines.length && lines[nextNonEmptyLine].trim() === '')\<close>
\<close>

function nextNonEmpty :: "string list \<Rightarrow> nat \<Rightarrow> nat" where
  "nextNonEmpty lines n =
     (if n < length lines \<and> trim (lines ! n) = [] then nextNonEmpty lines (n + 1) else n)"
  by pat_completeness auto
termination
  by (relation "measure (\<lambda>(lines, n). length lines - n)") auto

declare nextNonEmpty.simps [simp del]

text \<open>
  The message \<^verbatim>\<open>`Line ${i + 1}: Expected indented block after '${trimmed}'`\<close>
\<close>

definition indentMessage :: "nat \<Rightarrow> string \<Rightarrow> string" where
  "indentMessage i trimmed =
     ''Line '' @ show_nat (i + 1) @ '': Expected indented block after '' @
     [CHR 0x27] @ trimmed @ [CHR 0x27]"

definition invalid :: "string \<Rightarrow> ValidationResult" where
  "invalid msg = \<lparr> isValid = False, error = Some msg \<rparr>"

definition valid :: ValidationResult where
  "valid = \<lparr> isValid = True, error = None \<rparr>"

text \<open>
  The line loop. \<open>Inl\<close> is the early \<^verbatim>\<open>return\<close> from inside the loop, \<open>Inr\<close> the
  counters when the loop runs to its end. The source nests three tests on the way to
  the early return (a colon line that is no comment; a next non-blank line exists; it
  is indented no deeper); they are one conjunction here. The source runs the character
  loop before these tests; it changes the counters only, and the early return drops
  them.
\<close>

function validateLoop :: "string list \<Rightarrow> nat \<Rightarrow> Counts \<Rightarrow> ValidationResult + Counts" where
  "validateLoop lines i k =
     (if i < length lines then
        (if trim (lines ! i) = [] then validateLoop lines (i + 1) k
         else if endsWith (trim (lines ! i)) '':'' \<and> \<not> startsWith (trim (lines ! i)) ''#'' \<and>
                 nextNonEmpty lines (i + 1) < length lines \<and>
                 getIndentLevel (lines ! nextNonEmpty lines (i + 1)) \<le> getIndentLevel (lines ! i)
              then Inl (invalid (indentMessage i (trim (lines ! i))))
              else validateLoop lines (i + 1) (scanChars (trim (lines ! i)) False [] k))
      else Inr k)"
  by pat_completeness auto
termination
  by (relation "measure (\<lambda>(lines, i, k). length lines - i)") auto

declare validateLoop.simps [simp del]

text \<open>
  The checks after the loop. Nothing in the body of the \<^verbatim>\<open>try\<close> can throw on a string
  argument, so the \<^verbatim>\<open>catch\<close> branch is never taken.
\<close>

definition balanceCheck :: "Counts \<Rightarrow> ValidationResult" where
  "balanceCheck k =
     (if parenCount k \<noteq> 0 then invalid ''Unmatched parentheses in code''
      else if bracketCount k \<noteq> 0 then invalid ''Unmatched square brackets in code''
      else if braceCount k \<noteq> 0 then invalid ''Unmatched curly braces in code''
      else valid)"

definition validatePythonSyntax :: "string \<Rightarrow> ValidationResult" where
  "validatePythonSyntax code =
     (case validateLoop (split_nl code) 0 zeroCounts of
        Inl r \<Rightarrow> r
      | Inr k \<Rightarrow> balanceCheck k)"

section \<open>\<^verbatim>\<open>PythonParser.extractCodeWithoutDocstrings\<close>\<close>

text \<open>
  The loop \<^verbatim>\<open>for (const line of lines)\<close> with its two variables \<^verbatim>\<open>inDocstring\<close> and
  \<^verbatim>\<open>docstringQuote\<close>; the result is the list of the lines pushed.
\<close>

definition opensDocstring :: "string \<Rightarrow> bool" where
  "opensDocstring trimmed \<longleftrightarrow> startsWith trimmed tripleDouble \<or> startsWith trimmed tripleSingle"

fun extractLoop :: "string list \<Rightarrow> bool \<Rightarrow> string \<Rightarrow> string list" where
  "extractLoop [] inDocstring docstringQuote = []"
| "extractLoop (line # rest) inDocstring docstringQuote =
     (if \<not> inDocstring \<and> opensDocstring (trim line) then
        (let q = (if startsWith (trim line) tripleDouble then tripleDouble else tripleSingle)
         in extractLoop rest (\<not> (length (trim line) > 3 \<and> endsWith (trim line) q)) q)
      else if inDocstring \<and> endsWith (trim line) docstringQuote then
        extractLoop rest False docstringQuote
      else if \<not> inDocstring then line # extractLoop rest inDocstring docstringQuote
      else extractLoop rest inDocstring docstringQuote)"

definition extractCodeWithoutDocstrings :: "string \<Rightarrow> string" where
  "extractCodeWithoutDocstrings code = join_nl (extractLoop (split_nl code) False [])"

section \<open>Predicates used to state the properties\<close>

text \<open>
  Line \<open>j\<close> (0-indexed) ends the body-end scan of a definition whose indentation is
  \<open>indentLevel\<close>: it is not blank, it is indented no deeper, and it starts a
  definition, a class or the main guard.
\<close>

definition stopLine :: "string list \<Rightarrow> nat \<Rightarrow> nat \<Rightarrow> bool" where
  "stopLine lines indentLevel j \<longleftrightarrow>
     trim (lines ! j) \<noteq> [] \<and> getIndentLevel (lines ! j) \<le> indentLevel \<and>
     blockStart (trim (lines ! j))"

text \<open>
  The header accumulated for the definition on line \<open>i\<close> (0-indexed), before the colon
  is removed, and the condition under which the reassembly loop stops by itself and
  not at the end of the input: a colon has been seen and the parenthesis depth is not
  positive.
\<close>

definition header :: "string list \<Rightarrow> nat \<Rightarrow> string" where
  "header lines i =
     readSignature lines (i + 1) (trim (lines ! i)) (parenDelta (trim (lines ! i)))"

definition headerClosed :: "string list \<Rightarrow> nat \<Rightarrow> bool" where
  "headerClosed lines i \<longleftrightarrow>
     includesColon (header lines i) \<and> parenDelta (header lines i) \<le> 0"

text \<open>
  Line \<open>i\<close> (0-indexed) ends with a colon, is not a comment, and its next non-blank
  line exists and is not indented more deeply.
\<close>

definition missingBlock :: "string list \<Rightarrow> nat \<Rightarrow> bool" where
  "missingBlock lines i \<longleftrightarrow>
     i < length lines \<and> endsWith (trim (lines ! i)) '':'' \<and>
     \<not> startsWith (trim (lines ! i)) ''#'' \<and>
     (\<exists>j \<in> {i + 1 ..< length lines}.
        trim (lines ! j) \<noteq> [] \<and> (\<forall>k \<in> {i + 1 ..< j}. trim (lines ! k) = []) \<and>
        getIndentLevel (lines ! j) \<le> getIndentLevel (lines ! i))"

text \<open>
  The counters after the character loop has run over every non-blank line, in order.
\<close>

definition countLines :: "string list \<Rightarrow> Counts \<Rightarrow> Counts" where
  "countLines lines k =
     foldl (\<lambda>k line. if trim line = [] then k else scanChars (trim line) False [] k) k lines"

text \<open>
  What \<open>n\<close> appended empty lines do to a descriptor of the original input: nothing
  when its header was closed, \<open>n\<close> more spaces at the end of the signature otherwise.
\<close>

definition padSignature :: "string list \<Rightarrow> nat \<Rightarrow> PythonFunction \<Rightarrow> PythonFunction" where
  "padSignature lines n d =
     (if headerClosed lines (startLine d - 1) then d
      else d\<lparr> signature := signature d @ replicate n (CHR '' '') \<rparr>)"

section \<open>Lines and descriptors\<close>

lemma split_nl_nonempty: "split_nl s \<noteq> []"
  by (induction s) (auto split: list.splits)

lemma parseLoop_mem:
  "d \<in> set (parseLoop lines i) \<longleftrightarrow>
     (\<exists>k nm. i \<le> k \<and> k < length lines \<and> functionMatch (trim (lines ! k)) = Some nm \<and>
        d = descriptor lines k nm)"
proof (induction lines i rule: parseLoop.induct)
  case (1 lines i)
  show ?case
  proof (cases "i < length lines")
    case False
    then show ?thesis by (subst parseLoop.simps) auto
  next
    case True
    show ?thesis
    proof (cases "functionMatch (trim (lines ! i))")
      case None
      have "parseLoop lines i = parseLoop lines (i + 1)"
        using True None by (subst parseLoop.simps) simp
      moreover have "\<And>k nm. functionMatch (trim (lines ! k)) = Some nm \<Longrightarrow> i \<le> k \<Longrightarrow> i + 1 \<le> k"
        using None by (metis Suc_eq_plus1 Suc_leI le_neq_implies_less option.distinct(1))
      ultimately show ?thesis
        using "1.IH"(1)[OF True None] by (metis add_leD1)
    next
      case (Some nm0)
      have eq: "parseLoop lines i = descriptor lines i nm0 # parseLoop lines (i + 1)"
        using True Some by (subst parseLoop.simps) simp
      have step: "\<And>k. i \<le> k \<longleftrightarrow> k = i \<or> i + 1 \<le> k" by auto
      show ?thesis
        unfolding eq using "1.IH"(2)[OF True Some] True Some
        by (auto simp: step)
    qed
  qed
qed

lemma findEnd_lower: "s \<le> j \<Longrightarrow> s \<le> e \<Longrightarrow> s \<le> findEnd lines ind j e"
proof (induction lines ind j e rule: findEnd.induct)
  case (1 lines ind j e)
  then show ?case
    by (subst findEnd.simps) auto
qed

lemma sublist_trim: "sublist (trim l) l"
proof -
  have "suffix (dropWhile is_space l) l" by (rule suffix_dropWhile)
  moreover have "prefix (trim l) (dropWhile is_space l)"
    unfolding trim_def
    by (metis suffix_dropWhile suffix_to_prefix rev_rev_ident)
  ultimately show ?thesis
    by (meson prefix_imp_sublist suffix_imp_sublist sublist_order.order_trans)
qed

lemma functionMatch_sublist:
  assumes "functionMatch t = Some nm"
  shows "sublist nm t"
proof -
  from assms have pre: "prefix ''def'' t"
    by (auto simp: functionMatch_def startsWith_def split: if_splits)
  define rest where "rest = drop 3 t"
  from assms pre obtain c cs where
    cs: "dropWhile is_space rest = c # cs" and nm: "nm = c # takeWhile is_ident_char cs"
    by (auto simp: functionMatch_def startsWith_def Let_def rest_def split: if_splits list.splits)
  have "prefix nm (c # cs)"
    unfolding nm by (simp add: takeWhile_is_prefix)
  then have "sublist nm (dropWhile is_space rest)"
    using cs by (simp add: prefix_imp_sublist)
  moreover have "sublist (dropWhile is_space rest) rest"
    by (simp add: suffix_dropWhile suffix_imp_sublist)
  moreover have "sublist rest t"
    unfolding rest_def by (simp add: suffix_drop suffix_imp_sublist)
  ultimately show ?thesis
    by (meson sublist_order.order_trans)
qed

section \<open>The body-end scan\<close>

lemma findEnd_stop:
  "j0 \<le> j \<Longrightarrow> j < length lines \<Longrightarrow> stopLine lines ind j \<Longrightarrow>
   (\<And>k. j0 \<le> k \<Longrightarrow> k < j \<Longrightarrow> \<not> stopLine lines ind k) \<Longrightarrow>
   findEnd lines ind j0 e = j"
proof (induction lines ind j0 e rule: findEnd.induct)
  case (1 lines ind j0 e)
  show ?case
  proof (cases "j0 = j")
    case True
    with "1.prems" show ?thesis
      by (subst findEnd.simps) (simp add: stopLine_def)
  next
    case False
    with "1.prems" have lt: "j0 < j" "j0 < length lines" "j0 + 1 \<le> j" by auto
    have ns: "\<not> stopLine lines ind j0" using "1.prems"(4) lt by simp
    have later: "\<And>k. j0 + 1 \<le> k \<Longrightarrow> k < j \<Longrightarrow> \<not> stopLine lines ind k"
      using "1.prems"(4) by simp
    show ?thesis
    proof (cases "trim (lines ! j0) = []")
      case True
      have "findEnd lines ind j0 e = findEnd lines ind (j0 + 1) e"
        using True lt by (subst findEnd.simps) simp
      also have "\<dots> = j"
        using "1.IH"(1)[OF lt(2) True lt(3) "1.prems"(2,3) later] .
      finally show ?thesis .
    next
      case nb: False
      have nstop: "\<not> (getIndentLevel (lines ! j0) \<le> ind \<and> blockStart (trim (lines ! j0)))"
        using ns nb by (simp add: stopLine_def)
      have "findEnd lines ind j0 e = findEnd lines ind (j0 + 1) (j0 + 1)"
        using nb nstop lt by (subst findEnd.simps) auto
      also have "\<dots> = j"
        using "1.IH"(2)[OF lt(2) nb nstop lt(3) "1.prems"(2,3) later] .
      finally show ?thesis .
    qed
  qed
qed

lemma findEnd_blank:
  "(\<And>k. j0 \<le> k \<Longrightarrow> k < length lines \<Longrightarrow> trim (lines ! k) = []) \<Longrightarrow>
   findEnd lines ind j0 e = e"
proof (induction lines ind j0 e rule: findEnd.induct)
  case (1 lines ind j0 e)
  show ?case
  proof (cases "j0 < length lines")
    case False
    then show ?thesis by (subst findEnd.simps) simp
  next
    case True
    have b: "trim (lines ! j0) = []" using "1.prems" True by simp
    have "findEnd lines ind j0 e = findEnd lines ind (j0 + 1) e"
      using True b by (subst findEnd.simps) simp
    also have "\<dots> = e"
      using "1.IH"(1)[OF True b] "1.prems" by simp
    finally show ?thesis .
  qed
qed

lemma findEnd_last:
  "(\<And>k. j0 \<le> k \<Longrightarrow> k < length lines \<Longrightarrow> \<not> stopLine lines ind k) \<Longrightarrow>
   j0 \<le> j \<Longrightarrow> j < length lines \<Longrightarrow> trim (lines ! j) \<noteq> [] \<Longrightarrow>
   (\<And>k. j < k \<Longrightarrow> k < length lines \<Longrightarrow> trim (lines ! k) = []) \<Longrightarrow>
   findEnd lines ind j0 e = j + 1"
proof (induction lines ind j0 e rule: findEnd.induct)
  case (1 lines ind j0 e)
  have lt: "j0 < length lines" using "1.prems" by simp
  have ns: "\<not> stopLine lines ind j0" using "1.prems"(1) lt by simp
  have later: "\<And>k. j0 + 1 \<le> k \<Longrightarrow> k < length lines \<Longrightarrow> \<not> stopLine lines ind k"
    using "1.prems"(1) by simp
  show ?case
  proof (cases "trim (lines ! j0) = []")
    case True
    then have "j0 \<noteq> j" using "1.prems"(4) by auto
    then have le: "j0 + 1 \<le> j" using "1.prems"(2) by simp
    have "findEnd lines ind j0 e = findEnd lines ind (j0 + 1) e"
      using True lt by (subst findEnd.simps) simp
    also have "\<dots> = j + 1"
      using "1.IH"(1)[OF lt True later le "1.prems"(3,4,5)] by simp
    finally show ?thesis .
  next
    case nb: False
    have nstop: "\<not> (getIndentLevel (lines ! j0) \<le> ind \<and> blockStart (trim (lines ! j0)))"
      using ns nb by (simp add: stopLine_def)
    have step: "findEnd lines ind j0 e = findEnd lines ind (j0 + 1) (j0 + 1)"
      using nb nstop lt by (subst findEnd.simps) auto
    show ?thesis
    proof (cases "j0 = j")
      case True
      have "findEnd lines ind (j0 + 1) (j0 + 1) = j0 + 1"
        by (rule findEnd_blank) (use "1.prems"(5) True in simp)
      with step True show ?thesis by simp
    next
      case False
      then have le: "j0 + 1 \<le> j" using "1.prems"(2) by simp
      have "findEnd lines ind (j0 + 1) (j0 + 1) = j + 1"
        using "1.IH"(2)[OF lt nb nstop later le "1.prems"(3,4,5)] by simp
      with step show ?thesis by simp
    qed
  qed
qed

section \<open>Appended empty lines\<close>

lemma trim_Nil [simp]: "trim [] = []"
  by (simp add: trim_def)

lemma functionMatch_Nil [simp]: "functionMatch [] = None"
  by (simp add: functionMatch_def startsWith_def)

lemma split_nl_snoc: "split_nl (s @ [CHR 0x0A]) = split_nl s @ [[]]"
proof (induction s)
  case Nil
  show ?case by simp
next
  case (Cons c cs)
  obtain l ls where "split_nl cs = l # ls"
    using split_nl_nonempty[of cs] by (cases "split_nl cs") auto
  with Cons show ?case by simp
qed

lemma split_nl_blank_lines:
  "split_nl (s @ replicate n (CHR 0x0A)) = split_nl s @ replicate n []"
proof (induction n)
  case 0
  show ?case by simp
next
  case (Suc n)
  have "split_nl (s @ replicate (Suc n) (CHR 0x0A)) = split_nl ((s @ replicate n (CHR 0x0A)) @ [CHR 0x0A])"
    by (simp add: replicate_append_same)
  also have "\<dots> = split_nl (s @ replicate n (CHR 0x0A)) @ [[]]"
    by (rule split_nl_snoc)
  also have "\<dots> = split_nl s @ replicate (Suc n) []"
    using Suc by (simp add: replicate_append_same)
  finally show ?case .
qed

lemma findEnd_blank_lines:
  "findEnd (L @ replicate n []) ind j e = findEnd L ind j e"
proof (induction "length L + n - j" arbitrary: j e)
  case 0
  then have "\<not> j < length (L @ replicate n [])" "\<not> j < length L" by auto
  then show ?case
    by (subst findEnd.simps, subst (2) findEnd.simps) (simp del: length_append)
next
  case (Suc m)
  then have m: "m = length L + n - (j + 1)" and lt: "j < length (L @ replicate n [])" by auto
  show ?case
  proof (cases "j < length L")
    case True
    then have nth: "(L @ replicate n []) ! j = L ! j" by (simp add: nth_append)
    show ?thesis
      by (subst findEnd.simps, subst (3) findEnd.simps)
        (use True lt nth Suc.hyps(1)[OF m] in \<open>simp del: length_append\<close>)
  next
    case False
    then have nth: "(L @ replicate n []) ! j = []" using lt by (simp add: nth_append)
    have "findEnd (L @ replicate n []) ind j e = findEnd (L @ replicate n []) ind (j + 1) e"
      by (subst findEnd.simps) (use lt nth in \<open>simp del: length_append\<close>)
    also have "\<dots> = findEnd L ind (j + 1) e" by (rule Suc.hyps(1)[OF m])
    also have "\<dots> = e" using False by (subst findEnd.simps) simp
    also have "e = findEnd L ind j e" using False by (subst findEnd.simps) simp
    finally show ?thesis .
  qed
qed

lemma parenDelta_Nil: "parenDelta [] = 0"
  by (simp add: parenDelta_def)

lemma readSignature_past_end:
  "length L \<le> j \<Longrightarrow> m = length L + n - j \<Longrightarrow>
   readSignature (L @ replicate n []) j sig pc =
     (if pc > 0 \<or> \<not> includesColon sig then sig @ replicate m (CHR '' '') else sig)"
proof (induction m arbitrary: j sig)
  case 0
  then have "\<not> j < length (L @ replicate n [])" by auto
  then show ?case by (subst readSignature.simps) (simp del: length_append)
next
  case (Suc m)
  then have lt: "j < length (L @ replicate n [])" and m: "m = length L + n - (j + 1)"
    and le: "length L \<le> j + 1" by auto
  have nth: "(L @ replicate n []) ! j = []" using Suc.prems lt by (simp add: nth_append)
  show ?case
  proof (cases "pc > 0 \<or> \<not> includesColon sig")
    case False
    then show ?thesis by (subst readSignature.simps) auto
  next
    case True
    have inc: "includesColon (sig @ '' '') = includesColon sig"
      by (simp add: includesColon_def)
    have "readSignature (L @ replicate n []) j sig pc =
            readSignature (L @ replicate n []) (j + 1) (sig @ '' '') pc"
      by (subst readSignature.simps) (use True lt nth in \<open>auto simp del: length_append simp: parenDelta_Nil\<close>)
    also have "\<dots> = (sig @ '' '') @ replicate m (CHR '' '')"
      using Suc.IH[OF le m, of "sig @ '' ''"] True inc by auto
    also have "\<dots> = sig @ replicate (Suc m) (CHR '' '')" by simp
    finally show ?thesis using True by simp
  qed
qed

lemma readSignature_blank_lines:
  "j \<le> length L \<Longrightarrow> pc = parenDelta sig \<Longrightarrow>
   readSignature (L @ replicate n []) j sig pc =
     (if includesColon (readSignature L j sig pc) \<and> parenDelta (readSignature L j sig pc) \<le> 0
      then readSignature L j sig pc
      else readSignature L j sig pc @ replicate n (CHR '' ''))"
proof (induction L j sig pc rule: readSignature.induct)
  case (1 L j sig pc)
  show ?case
  proof (cases "j < length L \<and> (pc > 0 \<or> \<not> includesColon sig)")
    case True
    then have lt: "j < length (L @ replicate n [])" and nth: "(L @ replicate n []) ! j = L ! j"
      by (auto simp: nth_append)
    have l: "readSignature (L @ replicate n []) j sig pc =
       readSignature (L @ replicate n []) (j + 1) (sig @ '' '' @ trim (L ! j)) (pc + parenDelta (trim (L ! j)))"
      by (subst readSignature.simps) (use True lt nth in \<open>auto simp del: length_append\<close>)
    have r: "readSignature L j sig pc =
       readSignature L (j + 1) (sig @ '' '' @ trim (L ! j)) (pc + parenDelta (trim (L ! j)))"
      by (subst readSignature.simps) (use True in auto)
    have inv: "pc + parenDelta (trim (L ! j)) = parenDelta (sig @ '' '' @ trim (L ! j))"
      using "1.prems"(2) by (simp add: parenDelta_def)
    show ?thesis
      unfolding l r using "1.IH"[OF True _ inv] True by simp
  next
    case False
    then have r: "readSignature L j sig pc = sig"
      by (subst readSignature.simps) auto
    show ?thesis
    proof (cases "j < length L")
      case True
      with False have c: "\<not> (pc > 0 \<or> \<not> includesColon sig)" by simp
      have "readSignature (L @ replicate n []) j sig pc = sig"
        by (subst readSignature.simps) (use c in auto)
      with r c "1.prems"(2) show ?thesis by auto
    next
      case False
      then have ge: "length L \<le> j" and eq: "length L + n - j = n"
        using "1.prems"(1) by simp_all
      from readSignature_past_end[OF ge refl, of n sig pc] "1.prems" r eq
      show ?thesis by auto
    qed
  qed
qed


lemma nextHasDocstring_blank_lines:
  "i < length L \<Longrightarrow> nextHasDocstring (L @ replicate n []) i = nextHasDocstring L i"
  by (auto simp: nextHasDocstring_def nth_append startsWith_def tripleDouble_def tripleSingle_def)

lemma descriptor_blank_lines:
  assumes "i < length L"
  shows "descriptor (L @ replicate n []) i nm = padSignature L n (descriptor L i nm)"
proof -
  have nth: "(L @ replicate n []) ! i = L ! i" using assms by (simp add: nth_append)
  have le: "i + 1 \<le> length L" using assms by simp
  have sig: "readSignature (L @ replicate n []) (i + 1) (trim (L ! i)) (parenDelta (trim (L ! i))) =
      (if headerClosed L i
       then readSignature L (i + 1) (trim (L ! i)) (parenDelta (trim (L ! i)))
       else readSignature L (i + 1) (trim (L ! i)) (parenDelta (trim (L ! i))) @
              replicate n (CHR '' ''))"
    using readSignature_blank_lines[OF le refl, of n "trim (L ! i)"]
    by (simp add: headerClosed_def header_def)
  show ?thesis
    unfolding descriptor_def padSignature_def nth sig findEnd_blank_lines
      nextHasDocstring_blank_lines[OF assms]
    by (simp add: remove1_append remove1_idem)
qed

lemma parseLoop_past_end:
  "length L \<le> i \<Longrightarrow> parseLoop (L @ replicate n []) i = []"
proof (induction "length L + n - i" arbitrary: i)
  case 0
  then show ?case by (subst parseLoop.simps) simp
next
  case (Suc m)
  then have m: "m = length L + n - (i + 1)" and le: "length L \<le> i + 1"
    and lt: "i < length (L @ replicate n [])" by auto
  have nth: "(L @ replicate n []) ! i = []" using Suc.prems lt by (simp add: nth_append)
  have "parseLoop (L @ replicate n []) i = parseLoop (L @ replicate n []) (i + 1)"
    by (subst parseLoop.simps) (use lt nth in \<open>simp del: length_append\<close>)
  then show ?case using Suc.hyps(1)[OF m le] by simp
qed

lemma parseLoop_blank_lines:
  "parseLoop (L @ replicate n []) i = map (padSignature L n) (parseLoop L i)"
proof (induction L i rule: parseLoop.induct)
  case (1 L i)
  show ?case
  proof (cases "i < length L")
    case False
    then have "parseLoop L i = []" by (subst parseLoop.simps) simp
    moreover have "parseLoop (L @ replicate n []) i = []"
      using False by (intro parseLoop_past_end) simp
    ultimately show ?thesis by simp
  next
    case True
    then have lt: "i < length (L @ replicate n [])" and nth: "(L @ replicate n []) ! i = L ! i"
      by (auto simp: nth_append)
    show ?thesis
    proof (cases "functionMatch (trim (L ! i))")
      case None
      have "parseLoop (L @ replicate n []) i = parseLoop (L @ replicate n []) (i + 1)"
        by (subst parseLoop.simps) (use lt nth None in \<open>simp del: length_append\<close>)
      moreover have "parseLoop L i = parseLoop L (i + 1)"
        by (subst parseLoop.simps) (use True None in simp)
      ultimately show ?thesis using "1.IH"(1)[OF True None] by simp
    next
      case (Some nm)
      have "parseLoop (L @ replicate n []) i =
          descriptor (L @ replicate n []) i nm # parseLoop (L @ replicate n []) (i + 1)"
        by (subst parseLoop.simps) (use lt nth Some in \<open>simp del: length_append\<close>)
      moreover have "parseLoop L i = descriptor L i nm # parseLoop L (i + 1)"
        by (subst parseLoop.simps) (use True Some in simp)
      ultimately show ?thesis
        using "1.IH"(2)[OF True Some] descriptor_blank_lines[OF True] by simp
    qed
  qed
qed

section \<open>Reassembly of a signature that spans two lines\<close>

text \<open>
  Claim C4. On the input \<^verbatim>\<open>"def f(a,\n      b):\n    pass\n"\<close> the scanner returns
  exactly one descriptor, with name \<^verbatim>\<open>f\<close>, start line 1 and signature
  \<^verbatim>\<open>def f(a, b)\<close>: the trimmed continuation line is joined with one space while
  the parenthesis depth is positive or no colon has been seen, and the colon is then
  removed.
\<close>

theorem parseFunctions_two_line_signature:
  "parseFunctions ''def f(a,\<newline>      b):\<newline>    pass\<newline>'' =
     [\<lparr> name = ''f'', startLine = 1, endLine = 3, signature = ''def f(a, b)'',
        hasDocstring = False \<rparr>]"
  by code_simp

section \<open>The colon of an annotated header\<close>

text \<open>
  Claim C1 says that no signature contains a colon. The scanner removes the first
  colon of the reassembled header only, so a header with a parameter annotation loses
  the colon of the annotation and keeps the colon that ends the header: on
  \<^verbatim>\<open>"def f(a: int) -> int:\n    return a\n"\<close> the signature is
  \<^verbatim>\<open>def f(a int) -> int:\<close>.
\<close>

theorem parseFunctions_annotated_header:
  "parseFunctions ''def f(a: int) -> int:\<newline>    return a\<newline>'' =
     [\<lparr> name = ''f'', startLine = 1, endLine = 2, signature = ''def f(a int) -> int:'',
        hasDocstring = False \<rparr>]"
  by code_simp

section \<open>Start line, end line and name\<close>

text \<open>
  Claim C7. Every descriptor has \<open>startLine \<le> endLine\<close>, its start line is a line of
  the input, and that line of the original text (position \<open>startLine\<close>, counted from 1)
  contains the descriptor's name as a contiguous substring.
\<close>

theorem descriptor_span_and_name:
  assumes "d \<in> set (parseFunctions code)"
  shows "startLine d \<le> endLine d \<and> 1 \<le> startLine d \<and>
         startLine d \<le> length (split_nl code) \<and>
         sublist (name d) (split_nl code ! (startLine d - 1))"
proof -
  from assms obtain i nm where
    i: "i < length (split_nl code)" and
    m: "functionMatch (trim (split_nl code ! i)) = Some nm" and
    d: "d = descriptor (split_nl code) i nm"
    unfolding parseFunctions_def parseLoop_mem by auto
  have "i + 1 \<le> findEnd (split_nl code) (getIndentLevel (split_nl code ! i)) (i + 1) (i + 1)"
    by (rule findEnd_lower) simp_all
  moreover have "sublist nm (split_nl code ! i)"
    using functionMatch_sublist[OF m] sublist_trim[of "split_nl code ! i"]
    by (meson sublist_order.order_trans)
  ultimately show ?thesis
    using i by (simp add: d descriptor_def)
qed

theorem descriptor_span_and_name_witness:
  "parseFunctions ''x = 1\<newline>  def go_1 (a):\<newline>    pass'' =
     [\<lparr> name = ''go_1'', startLine = 2, endLine = 3, signature = ''def go_1 (a)'',
        hasDocstring = False \<rparr>] \<and>
   (2 :: nat) \<le> 3 \<and>
   split_nl ''x = 1\<newline>  def go_1 (a):\<newline>    pass'' ! (2 - 1) = ''  def go_1 (a):'' \<and>
   sublist ''go_1'' ''  def go_1 (a):''"
proof -
  let ?code = "''x = 1\<newline>  def go_1 (a):\<newline>    pass''"
  let ?d = "\<lparr> name = ''go_1'', startLine = 2, endLine = 3, signature = ''def go_1 (a)'',
               hasDocstring = False \<rparr>"
  have run: "parseFunctions ?code = [?d]"
    by code_simp
  have line: "split_nl ?code ! (2 - 1) = ''  def go_1 (a):''"
    by code_simp
  have "?d \<in> set (parseFunctions ?code)"
    by (simp only: run list.set insertI1)
  from descriptor_span_and_name[OF this] have "sublist ''go_1'' (split_nl ?code ! (2 - 1))"
    by simp
  with run line show ?thesis
    by simp
qed

section \<open>Docstring detection\<close>

text \<open>
  Claim C3. A descriptor has \<open>hasDocstring\<close> exactly when the physical line right after
  the matched line exists and its trimmed text starts with three double quotes or three
  single quotes. (The line after the line numbered \<open>startLine\<close> has the 0-indexed
  position \<open>startLine\<close>.) The test looks at that line also when the signature goes on
  there, as the third input shows, whose docstring follows a two-line header and is not
  seen. On \<^verbatim>\<open>"def f():\n    \"\"\"doc\"\"\"\n    pass\n"\<close> the single descriptor
  has \<open>hasDocstring = True\<close>.
\<close>

theorem hasDocstring_next_physical_line:
  "(\<forall>d \<in> set (parseFunctions code).
      hasDocstring d \<longleftrightarrow>
        startLine d < length (split_nl code) \<and>
        (startsWith (trim (split_nl code ! startLine d)) tripleDouble \<or>
         startsWith (trim (split_nl code ! startLine d)) tripleSingle)) \<and>
   parseFunctions
     (''def f():\<newline>    '' @ tripleDouble @ ''doc'' @ tripleDouble @ ''\<newline>    pass\<newline>'') =
     [\<lparr> name = ''f'', startLine = 1, endLine = 3, signature = ''def f()'',
        hasDocstring = True \<rparr>] \<and>
   parseFunctions
     (''def f(a,\<newline>      b):\<newline>    '' @ tripleDouble @ ''doc'' @ tripleDouble @ ''\<newline>'') =
     [\<lparr> name = ''f'', startLine = 1, endLine = 3, signature = ''def f(a, b)'',
        hasDocstring = False \<rparr>]"
proof (intro conjI ballI)
  fix d
  assume "d \<in> set (parseFunctions code)"
  then obtain i nm where "d = descriptor (split_nl code) i nm"
    unfolding parseFunctions_def parseLoop_mem by auto
  then show "hasDocstring d \<longleftrightarrow>
        startLine d < length (split_nl code) \<and>
        (startsWith (trim (split_nl code ! startLine d)) tripleDouble \<or>
         startsWith (trim (split_nl code ! startLine d)) tripleSingle)"
    by (simp add: descriptor_def nextHasDocstring_def)
qed (code_simp, code_simp)

theorem hasDocstring_next_physical_line_witness:
  "parseFunctions (''def g(x):\<newline>  '' @ tripleSingle @ ''text'') =
     [\<lparr> name = ''g'', startLine = 1, endLine = 2, signature = ''def g(x)'',
        hasDocstring = True \<rparr>] \<and>
   (1 :: nat) < length (split_nl (''def g(x):\<newline>  '' @ tripleSingle @ ''text'')) \<and>
   startsWith (trim (split_nl (''def g(x):\<newline>  '' @ tripleSingle @ ''text'') ! 1)) tripleSingle"
proof -
  let ?code = "''def g(x):\<newline>  '' @ tripleSingle @ ''text''"
  let ?d = "\<lparr> name = ''g'', startLine = 1, endLine = 2, signature = ''def g(x)'',
               hasDocstring = True \<rparr>"
  have run: "parseFunctions ?code = [?d]"
    by code_simp
  have nd: "\<not> startsWith (trim (split_nl ?code ! 1)) tripleDouble"
    by code_simp
  have "?d \<in> set (parseFunctions ?code)"
    by (simp only: run list.set insertI1)
  with hasDocstring_next_physical_line[of ?code]
  have "hasDocstring ?d \<longleftrightarrow>
        startLine ?d < length (split_nl ?code) \<and>
        (startsWith (trim (split_nl ?code ! startLine ?d)) tripleDouble \<or>
         startsWith (trim (split_nl ?code ! startLine ?d)) tripleSingle)"
    by blast
  with nd have "1 < length (split_nl ?code) \<and>
      startsWith (trim (split_nl ?code ! 1)) tripleSingle"
    by (simp del: split_nl.simps)
  with run show ?thesis
    by (simp del: split_nl.simps)
qed

section \<open>The value of the end line\<close>

text \<open>
  Claim C2 puts \<open>endLine\<close> at the first line, after the matched one, that is not blank,
  is indented no deeper than the definition and starts with \<^verbatim>\<open>def \<close>, \<^verbatim>\<open>class \<close>
  or \<^verbatim>\<open>if __name__\<close>. The scan stores the 0-indexed position of that line, which as
  a line number counted from 1 is the line just before it. In
  \<^verbatim>\<open>"def f():\n    pass\ndef g():\n    pass"\<close> the scan for \<open>f\<close> stops at line 3
  (position 2), line 2 does not stop it, and \<open>endLine\<close> is 2, not 3.
\<close>

theorem endLine_at_stop_line_counterexample:
  "stopLine (split_nl ''def f():\<newline>    pass\<newline>def g():\<newline>    pass'') 0 2 \<and>
   \<not> stopLine (split_nl ''def f():\<newline>    pass\<newline>def g():\<newline>    pass'') 0 1 \<and>
   split_nl ''def f():\<newline>    pass\<newline>def g():\<newline>    pass'' ! 2 = ''def g():'' \<and>
   map endLine (parseFunctions ''def f():\<newline>    pass\<newline>def g():\<newline>    pass'') = [2, 4] \<and>
   endLine (hd (parseFunctions ''def f():\<newline>    pass\<newline>def g():\<newline>    pass'')) \<noteq> 3"
  by code_simp

text \<open>
  Claim C2 as amended. Let \<open>s\<close> be the start line of a descriptor; the lines after the
  matched one have the 0-indexed positions \<open>s, s + 1, \<dots>\<close>. If \<open>j\<close> is the first of these
  positions whose line stops the scan, then \<open>endLine = j\<close>: the number, counted from 1,
  of the line just before the stopping line (blank or not). If no line stops the scan,
  \<open>endLine\<close> is the number, counted from 1, of the last non-blank line of the input
  when that line comes after the matched one, and \<open>startLine\<close> when only blank lines
  or none follow.
\<close>

theorem endLine_of_descriptor:
  assumes "d \<in> set (parseFunctions code)"
  shows
    "(\<forall>j \<in> {startLine d ..< length (split_nl code)}.
        stopLine (split_nl code) (getIndentLevel (split_nl code ! (startLine d - 1))) j \<and>
        (\<forall>k \<in> {startLine d ..< j}.
           \<not> stopLine (split_nl code) (getIndentLevel (split_nl code ! (startLine d - 1))) k)
        \<longrightarrow> endLine d = j) \<and>
     ((\<forall>j \<in> {startLine d ..< length (split_nl code)}.
         \<not> stopLine (split_nl code) (getIndentLevel (split_nl code ! (startLine d - 1))) j) \<longrightarrow>
        (\<forall>j \<in> {startLine d ..< length (split_nl code)}.
           trim (split_nl code ! j) \<noteq> [] \<and>
           (\<forall>k \<in> {j + 1 ..< length (split_nl code)}. trim (split_nl code ! k) = [])
           \<longrightarrow> endLine d = j + 1) \<and>
        ((\<forall>j \<in> {startLine d ..< length (split_nl code)}. trim (split_nl code ! j) = [])
           \<longrightarrow> endLine d = startLine d))"
proof -
  let ?L = "split_nl code"
  let ?s = "startLine d"
  let ?ind = "getIndentLevel (?L ! (?s - 1))"
  from assms obtain i nm where d: "d = descriptor ?L i nm"
    unfolding parseFunctions_def parseLoop_mem by auto
  have e: "endLine d = findEnd ?L ?ind ?s ?s"
    by (simp add: d descriptor_def)
  have a: "endLine d = j"
    if "j \<in> {?s ..< length ?L}" "stopLine ?L ?ind j" "\<forall>k \<in> {?s ..< j}. \<not> stopLine ?L ?ind k"
    for j
    unfolding e using that by (intro findEnd_stop) auto
  have b: "endLine d = j + 1"
    if "\<forall>j \<in> {?s ..< length ?L}. \<not> stopLine ?L ?ind j" "j \<in> {?s ..< length ?L}"
      "trim (?L ! j) \<noteq> []" "\<forall>k \<in> {j + 1 ..< length ?L}. trim (?L ! k) = []"
    for j
    unfolding e using that by (intro findEnd_last) auto
  have c: "endLine d = ?s"
    if "\<forall>j \<in> {?s ..< length ?L}. trim (?L ! j) = []"
    unfolding e using that by (intro findEnd_blank) auto
  show ?thesis
  proof (intro conjI ballI impI)
    fix j
    assume "j \<in> {?s ..< length ?L}"
      and "stopLine ?L ?ind j \<and> (\<forall>k \<in> {?s ..< j}. \<not> stopLine ?L ?ind k)"
    then show "endLine d = j" using a by simp
  next
    fix j
    assume "\<forall>j \<in> {?s ..< length ?L}. \<not> stopLine ?L ?ind j"
      and "j \<in> {?s ..< length ?L}"
      and "trim (?L ! j) \<noteq> [] \<and> (\<forall>k \<in> {j + 1 ..< length ?L}. trim (?L ! k) = [])"
    then show "endLine d = j + 1" using b by simp
  next
    assume "\<forall>j \<in> {?s ..< length ?L}. \<not> stopLine ?L ?ind j"
      and "\<forall>j \<in> {?s ..< length ?L}. trim (?L ! j) = []"
    then show "endLine d = ?s" using c by simp
  qed
qed

theorem endLine_of_descriptor_witness:
  "parseFunctions ''def f():\<newline>    pass\<newline>\<newline>def g():\<newline>    pass\<newline>'' =
     [\<lparr> name = ''f'', startLine = 1, endLine = 3, signature = ''def f()'',
        hasDocstring = False \<rparr>,
      \<lparr> name = ''g'', startLine = 4, endLine = 5, signature = ''def g()'',
        hasDocstring = False \<rparr>] \<and>
   stopLine (split_nl ''def f():\<newline>    pass\<newline>\<newline>def g():\<newline>    pass\<newline>'') 0 3 \<and>
   \<not> stopLine (split_nl ''def f():\<newline>    pass\<newline>\<newline>def g():\<newline>    pass\<newline>'') 0 1 \<and>
   \<not> stopLine (split_nl ''def f():\<newline>    pass\<newline>\<newline>def g():\<newline>    pass\<newline>'') 0 2"
proof -
  let ?code = "''def f():\<newline>    pass\<newline>\<newline>def g():\<newline>    pass\<newline>''"
  let ?f = "\<lparr> name = ''f'', startLine = 1, endLine = 3, signature = ''def f()'',
               hasDocstring = False \<rparr>"
  let ?g = "\<lparr> name = ''g'', startLine = 4, endLine = 5, signature = ''def g()'',
               hasDocstring = False \<rparr>"
  have run: "parseFunctions ?code = [?f, ?g]"
    by code_simp
  have len: "length (split_nl ?code) = 6" and ind: "getIndentLevel (split_nl ?code ! 0) = 0"
    by code_simp+
  have s3: "stopLine (split_nl ?code) 0 3"
    and s1: "\<not> stopLine (split_nl ?code) 0 1"
    and s2: "\<not> stopLine (split_nl ?code) 0 2"
    by code_simp+
  have before: "\<forall>k \<in> {1 ..< (3::nat)}. \<not> stopLine (split_nl ?code) 0 k"
  proof
    fix k :: nat
    assume "k \<in> {1 ..< 3}"
    then have "k = 1 \<or> k = 2" by auto
    with s1 s2 show "\<not> stopLine (split_nl ?code) 0 k" by auto
  qed
  have "?f \<in> set (parseFunctions ?code)"
    by (simp only: run list.set insertI1)
  from endLine_of_descriptor[OF this, THEN conjunct1]
  have "\<forall>j \<in> {1 ..< 6}.
        stopLine (split_nl ?code) 0 j \<and> (\<forall>k \<in> {1 ..< j}. \<not> stopLine (split_nl ?code) 0 k)
        \<longrightarrow> endLine ?f = j"
    by (simp only: PythonFunction.simps len ind diff_self_eq_0)
  with s3 before have "endLine ?f = 3"
    by simp
  with run s1 s2 s3 show ?thesis
    by (simp del: split_nl.simps)
qed

section \<open>Trailing empty lines\<close>

text \<open>
  Claim C8 says that appending empty lines to the input changes no field of any
  descriptor. The reassembly loop reads on to the end of the input while the header is
  not closed, and an empty line adds a space to the signature: the signature of
  \<^verbatim>\<open>"def f("\<close> is \<^verbatim>\<open>def f(\<close>, and with one empty line appended it is
  \<^verbatim>\<open>def f( \<close> with a space at its end.
\<close>

theorem trailing_empty_line_counterexample:
  "parseFunctions ''def f('' =
     [\<lparr> name = ''f'', startLine = 1, endLine = 1, signature = ''def f('',
        hasDocstring = False \<rparr>] \<and>
   parseFunctions (''def f('' @ ''\<newline>'') =
     [\<lparr> name = ''f'', startLine = 1, endLine = 1, signature = ''def f('' @ '' '',
        hasDocstring = False \<rparr>] \<and>
   parseFunctions (''def f('' @ ''\<newline>'') \<noteq> parseFunctions ''def f(''"
  by code_simp

text \<open>
  Claim C8 as amended. Appending \<open>n\<close> empty lines to the input keeps the number and
  the order of the descriptors and the name, start line, end line and docstring flag
  of each. It keeps the signature of every descriptor whose header was closed on the
  original input (a colon seen, parenthesis depth not positive); the signature of each
  other descriptor gets \<open>n\<close> spaces at its end.
\<close>

theorem parseFunctions_trailing_empty_lines:
  "parseFunctions (code @ replicate n (CHR 0x0A)) =
     map (padSignature (split_nl code) n) (parseFunctions code) \<and>
   map (\<lambda>d. (name d, startLine d, endLine d, hasDocstring d))
       (parseFunctions (code @ replicate n (CHR 0x0A))) =
     map (\<lambda>d. (name d, startLine d, endLine d, hasDocstring d)) (parseFunctions code)"
proof -
  have eq: "parseFunctions (code @ replicate n (CHR 0x0A)) =
     map (padSignature (split_nl code) n) (parseFunctions code)"
    by (simp add: parseFunctions_def split_nl_blank_lines parseLoop_blank_lines)
  have "(\<lambda>d. (name d, startLine d, endLine d, hasDocstring d)) \<circ> padSignature (split_nl code) n =
        (\<lambda>d. (name d, startLine d, endLine d, hasDocstring d))"
    by (rule ext) (simp add: padSignature_def)
  with eq show ?thesis
    by (simp del: split_nl.simps)
qed

theorem parseFunctions_trailing_empty_lines_witness:
  "parseFunctions (''def f(a):\<newline>    pass'' @ replicate 2 (CHR 0x0A)) =
     parseFunctions ''def f(a):\<newline>    pass'' \<and>
   headerClosed (split_nl ''def f(a):\<newline>    pass'') 0"
proof -
  let ?code = "''def f(a):\<newline>    pass''"
  let ?d = "\<lparr> name = ''f'', startLine = 1, endLine = 2, signature = ''def f(a)'',
               hasDocstring = False \<rparr>"
  have run: "parseFunctions ?code = [?d]"
    by code_simp
  have closed: "headerClosed (split_nl ?code) 0"
    by code_simp
  have pad: "padSignature (split_nl ?code) 2 ?d = ?d"
    using closed by (simp add: padSignature_def del: split_nl.simps)
  from parseFunctions_trailing_empty_lines[of ?code 2, THEN conjunct1]
  have "parseFunctions (?code @ replicate 2 (CHR 0x0A)) = [?d]"
    by (simp only: run list.map pad)
  with run closed show ?thesis
    by (simp only: simp_thms)
qed

section \<open>The indentation check of the validator\<close>

lemma nextNonEmpty_first:
  "n \<le> j \<Longrightarrow> j < length L \<Longrightarrow> trim (L ! j) \<noteq> [] \<Longrightarrow>
   (\<And>k. n \<le> k \<Longrightarrow> k < j \<Longrightarrow> trim (L ! k) = []) \<Longrightarrow> nextNonEmpty L n = j"
proof (induction L n rule: nextNonEmpty.induct)
  case (1 L n)
  show ?case
  proof (cases "n = j")
    case True
    with "1.prems" show ?thesis by (subst nextNonEmpty.simps) simp
  next
    case False
    with "1.prems" have lt: "n < j" "n < length L" "n + 1 \<le> j" by auto
    have b: "trim (L ! n) = []" using "1.prems"(4) lt by simp
    have "nextNonEmpty L n = nextNonEmpty L (n + 1)"
      using lt b by (subst nextNonEmpty.simps) simp
    also have "\<dots> = j"
      using "1.IH" lt b "1.prems" by simp
    finally show ?thesis .
  qed
qed

lemma nextNonEmpty_found:
  "nextNonEmpty L n < length L \<Longrightarrow>
   n \<le> nextNonEmpty L n \<and> trim (L ! nextNonEmpty L n) \<noteq> [] \<and>
   (\<forall>k. n \<le> k \<and> k < nextNonEmpty L n \<longrightarrow> trim (L ! k) = [])"
proof (induction L n rule: nextNonEmpty.induct)
  case (1 L n)
  show ?case
  proof (cases "n < length L \<and> trim (L ! n) = []")
    case False
    then have "nextNonEmpty L n = n" by (subst nextNonEmpty.simps) auto
    with "1.prems" False show ?thesis by auto
  next
    case True
    have eq: "nextNonEmpty L n = nextNonEmpty L (n + 1)"
      using True by (subst nextNonEmpty.simps) simp
    have ih: "n + 1 \<le> nextNonEmpty L (n + 1) \<and> trim (L ! nextNonEmpty L (n + 1)) \<noteq> [] \<and>
      (\<forall>k. n + 1 \<le> k \<and> k < nextNonEmpty L (n + 1) \<longrightarrow> trim (L ! k) = [])"
      using "1.IH"[OF True] "1.prems" eq by simp
    have "trim (L ! k) = []" if "n \<le> k" "k < nextNonEmpty L (n + 1)" for k
    proof (cases "k = n")
      case True
      then show ?thesis using \<open>n < length L \<and> trim (L ! n) = []\<close> by simp
    next
      case False
      with that ih show ?thesis by simp
    qed
    with ih show ?thesis unfolding eq by auto
  qed
qed

text \<open>The test of the line loop and the predicate \<open>missingBlock\<close> say the same.\<close>

lemma endsWith_colon_nonempty: "endsWith t '':'' \<Longrightarrow> t \<noteq> []"
  by (auto simp: endsWith_def)

lemma missingBlock_iff:
  "missingBlock L i \<longleftrightarrow>
     i < length L \<and> endsWith (trim (L ! i)) '':'' \<and> \<not> startsWith (trim (L ! i)) ''#'' \<and>
     nextNonEmpty L (i + 1) < length L \<and>
     getIndentLevel (L ! nextNonEmpty L (i + 1)) \<le> getIndentLevel (L ! i)"
proof
  assume "missingBlock L i"
  then obtain j where h: "i < length L" "endsWith (trim (L ! i)) '':''"
    "\<not> startsWith (trim (L ! i)) ''#''" and
    j: "i + 1 \<le> j" "j < length L" "trim (L ! j) \<noteq> []"
    "\<forall>k \<in> {i + 1 ..< j}. trim (L ! k) = []"
    "getIndentLevel (L ! j) \<le> getIndentLevel (L ! i)"
    unfolding missingBlock_def by auto
  have "nextNonEmpty L (i + 1) = j"
    using j by (intro nextNonEmpty_first) auto
  with h j show "i < length L \<and> endsWith (trim (L ! i)) '':'' \<and> \<not> startsWith (trim (L ! i)) ''#'' \<and>
     nextNonEmpty L (i + 1) < length L \<and>
     getIndentLevel (L ! nextNonEmpty L (i + 1)) \<le> getIndentLevel (L ! i)"
    by simp
next
  assume r: "i < length L \<and> endsWith (trim (L ! i)) '':'' \<and> \<not> startsWith (trim (L ! i)) ''#'' \<and>
     nextNonEmpty L (i + 1) < length L \<and>
     getIndentLevel (L ! nextNonEmpty L (i + 1)) \<le> getIndentLevel (L ! i)"
  then have "nextNonEmpty L (i + 1) < length L" by simp
  from nextNonEmpty_found[OF this] r show "missingBlock L i"
    unfolding missingBlock_def
    by (intro conjI bexI[of _ "nextNonEmpty L (i + 1)"]) auto
qed

lemma validateLoop_fail:
  "i0 \<le> i \<Longrightarrow> missingBlock L i \<Longrightarrow> (\<And>m. i0 \<le> m \<Longrightarrow> m < i \<Longrightarrow> \<not> missingBlock L m) \<Longrightarrow>
   validateLoop L i0 k = Inl (invalid (indentMessage i (trim (L ! i))))"
proof (induction L i0 k rule: validateLoop.induct)
  case (1 L i0 k)
  from "1.prems"(2) have il: "i < length L" by (simp add: missingBlock_def)
  show ?case
  proof (cases "i0 = i")
    case True
    have "trim (L ! i) \<noteq> []"
      using "1.prems"(2) endsWith_colon_nonempty by (auto simp: missingBlock_def)
    with "1.prems"(2) True il show ?thesis
      unfolding missingBlock_iff by (subst validateLoop.simps) simp
  next
    case False
    with "1.prems" il have lt: "i0 < i" "i0 < length L" "i0 + 1 \<le> i" by auto
    have nm: "\<not> missingBlock L i0" using "1.prems"(3) lt by simp
    have later: "\<And>m. i0 + 1 \<le> m \<Longrightarrow> m < i \<Longrightarrow> \<not> missingBlock L m"
      using "1.prems"(3) by simp
    show ?thesis
    proof (cases "trim (L ! i0) = []")
      case True
      have "validateLoop L i0 k = validateLoop L (i0 + 1) k"
        using True lt by (subst validateLoop.simps) simp
      also have "\<dots> = Inl (invalid (indentMessage i (trim (L ! i))))"
        using "1.IH"(1)[OF lt(2) True lt(3) "1.prems"(2) later] .
      finally show ?thesis .
    next
      case nb: False
      have nc: "\<not> (endsWith (trim (L ! i0)) '':'' \<and> \<not> startsWith (trim (L ! i0)) ''#'' \<and>
                 nextNonEmpty L (i0 + 1) < length L \<and>
                 getIndentLevel (L ! nextNonEmpty L (i0 + 1)) \<le> getIndentLevel (L ! i0))"
        using nm lt unfolding missingBlock_iff by simp
      have "validateLoop L i0 k = validateLoop L (i0 + 1) (scanChars (trim (L ! i0)) False [] k)"
        using nb nc lt by (subst validateLoop.simps) auto
      also have "\<dots> = Inl (invalid (indentMessage i (trim (L ! i))))"
        using "1.IH"(2)[OF lt(2) nb nc lt(3) "1.prems"(2) later] .
      finally show ?thesis .
    qed
  qed
qed

lemma validateLoop_pass:
  "(\<And>m. i0 \<le> m \<Longrightarrow> m < length L \<Longrightarrow> \<not> missingBlock L m) \<Longrightarrow>
   validateLoop L i0 k = Inr (countLines (drop i0 L) k)"
proof (induction L i0 k rule: validateLoop.induct)
  case (1 L i0 k)
  show ?case
  proof (cases "i0 < length L")
    case False
    then show ?thesis by (subst validateLoop.simps) (simp add: countLines_def)
  next
    case True
    have nm: "\<not> missingBlock L i0" using "1.prems" True by simp
    have later: "\<And>m. i0 + 1 \<le> m \<Longrightarrow> m < length L \<Longrightarrow> \<not> missingBlock L m"
      using "1.prems" by simp
    have dr: "drop i0 L = L ! i0 # drop (i0 + 1) L"
      using True by (simp add: Cons_nth_drop_Suc)
    show ?thesis
    proof (cases "trim (L ! i0) = []")
      case True
      have "validateLoop L i0 k = validateLoop L (i0 + 1) k"
        using True \<open>i0 < length L\<close> by (subst validateLoop.simps) simp
      also have "\<dots> = Inr (countLines (drop (i0 + 1) L) k)"
        using "1.IH"(1)[OF \<open>i0 < length L\<close> True later] .
      finally show ?thesis unfolding dr using True by (simp add: countLines_def)
    next
      case nb: False
      have nc: "\<not> (endsWith (trim (L ! i0)) '':'' \<and> \<not> startsWith (trim (L ! i0)) ''#'' \<and>
                 nextNonEmpty L (i0 + 1) < length L \<and>
                 getIndentLevel (L ! nextNonEmpty L (i0 + 1)) \<le> getIndentLevel (L ! i0))"
        using nm True unfolding missingBlock_iff by simp
      have "validateLoop L i0 k = validateLoop L (i0 + 1) (scanChars (trim (L ! i0)) False [] k)"
        using nb nc True by (subst validateLoop.simps) auto
      also have "\<dots> = Inr (countLines (drop (i0 + 1) L) (scanChars (trim (L ! i0)) False [] k))"
        using "1.IH"(2)[OF True nb nc later] .
      finally show ?thesis unfolding dr using nb by (simp add: countLines_def)
    qed
  qed
qed

lemma indentMessage_head: "indentMessage n t = CHR ''L'' # tl (indentMessage n t)"
  by (simp add: indentMessage_def)

lemma balanceCheck_not_indent: "balanceCheck k \<noteq> invalid (indentMessage n t)"
proof -
  have "hd (indentMessage n t) = CHR ''L''"
    by (subst indentMessage_head) simp
  then have "indentMessage n t \<noteq> ''Unmatched parentheses in code''"
    "indentMessage n t \<noteq> ''Unmatched square brackets in code''"
    "indentMessage n t \<noteq> ''Unmatched curly braces in code''"
    by auto
  then show ?thesis
    by (auto simp: balanceCheck_def invalid_def valid_def)
qed

lemma none_after:
  assumes h: "\<forall>i \<in> {0 ..< length L}.
       endsWith (trim (L ! i)) '':'' \<and> \<not> startsWith (trim (L ! i)) ''#''
       \<longrightarrow> (\<forall>k \<in> {i + 1 ..< length L}. trim (L ! k) = [])"
  shows "\<not> missingBlock L m"
proof
  assume "missingBlock L m"
  then obtain j where m: "m < length L" "endsWith (trim (L ! m)) '':''"
      "\<not> startsWith (trim (L ! m)) ''#''" "j \<in> {m + 1 ..< length L}" "trim (L ! j) \<noteq> []"
    unfolding missingBlock_def by blast
  have mm: "m \<in> {0 ..< length L}" using m(1) by simp
  have "trim (L ! j) = []"
    by (rule h[rule_format, OF mm conjI[OF m(2) m(3)] m(4)])
  with m(5) show False by contradiction
qed

section \<open>A colon line without an indented block\<close>

text \<open>
  Claim C5. If some line ends (trimmed) with a colon, does not start with \<^verbatim>\<open>#\<close>, and
  its next non-blank line exists and is not indented more deeply, the validator returns
  the invalid result with the message
  \<^verbatim>\<open>Line {n}: Expected indented block after '{trimmed}'\<close>. The loop returns at once,
  so the line cited is the first such line of the input: \<open>n\<close> is its number counted
  from 1 (\<open>indentMessage\<close> takes the 0-indexed position and adds one) and
  \<open>trimmed\<close> its trimmed text. In particular \<^verbatim>\<open>"if True:\npass\n"\<close> is invalid
  with a message that cites line 1.
\<close>

theorem validatePythonSyntax_missing_block:
  "(missingBlock (split_nl code) i \<longrightarrow>
      (\<exists>n \<le> i. missingBlock (split_nl code) n \<and>
         (\<forall>m < n. \<not> missingBlock (split_nl code) m) \<and>
         validatePythonSyntax code =
           invalid (indentMessage n (trim (split_nl code ! n))))) \<and>
   (missingBlock (split_nl code) i \<and> (\<forall>m < i. \<not> missingBlock (split_nl code) m) \<longrightarrow>
      validatePythonSyntax code = invalid (indentMessage i (trim (split_nl code ! i)))) \<and>
   validatePythonSyntax ''if True:\<newline>pass\<newline>'' =
     invalid (''Line 1: Expected indented block after '' @ [CHR 0x27] @ ''if True:'' @ [CHR 0x27])"
proof -
  let ?L = "split_nl code"
  have first: "validatePythonSyntax code = invalid (indentMessage n (trim (?L ! n)))"
    if "missingBlock ?L n" "\<forall>m < n. \<not> missingBlock ?L m" for n
  proof -
    have "validateLoop ?L 0 zeroCounts = Inl (invalid (indentMessage n (trim (?L ! n))))"
      using that by (intro validateLoop_fail) auto
    then show ?thesis by (simp add: validatePythonSyntax_def)
  qed
  have some: "\<exists>n \<le> i. missingBlock ?L n \<and> (\<forall>m < n. \<not> missingBlock ?L m) \<and>
         validatePythonSyntax code = invalid (indentMessage n (trim (?L ! n)))"
    if mb: "missingBlock ?L i"
  proof -
    define n where "n = (LEAST n. missingBlock ?L n)"
    have n: "missingBlock ?L n" unfolding n_def using mb by (rule LeastI)
    have le: "n \<le> i" unfolding n_def using mb by (rule Least_le)
    have least: "\<forall>m < n. \<not> missingBlock ?L m"
      unfolding n_def using not_less_Least by blast
    from first[OF n least] n le least show ?thesis by blast
  qed
  have ex: "validatePythonSyntax ''if True:\<newline>pass\<newline>'' =
     invalid (''Line 1: Expected indented block after '' @ [CHR 0x27] @ ''if True:'' @ [CHR 0x27])"
    by code_simp
  show ?thesis
  proof (intro conjI impI)
    assume "missingBlock ?L i"
    then show "\<exists>n \<le> i. missingBlock ?L n \<and> (\<forall>m < n. \<not> missingBlock ?L m) \<and>
         validatePythonSyntax code = invalid (indentMessage n (trim (?L ! n)))"
      by (rule some)
  next
    assume "missingBlock ?L i \<and> (\<forall>m < i. \<not> missingBlock ?L m)"
    then show "validatePythonSyntax code = invalid (indentMessage i (trim (?L ! i)))"
      using first[of i] by (elim conjE)
  next
    show "validatePythonSyntax ''if True:\<newline>pass\<newline>'' =
     invalid (''Line 1: Expected indented block after '' @ [CHR 0x27] @ ''if True:'' @ [CHR 0x27])"
      by (rule ex)
  qed
qed

theorem validatePythonSyntax_missing_block_witness:
  "missingBlock (split_nl ''x = 1\<newline>for y in z:\<newline>\<newline>print(y)'') 1 \<and>
   \<not> missingBlock (split_nl ''x = 1\<newline>for y in z:\<newline>\<newline>print(y)'') 0 \<and>
   validatePythonSyntax ''x = 1\<newline>for y in z:\<newline>\<newline>print(y)'' =
     invalid (''Line 2: Expected indented block after '' @ [CHR 0x27] @ ''for y in z:'' @ [CHR 0x27])"
proof -
  let ?code = "''x = 1\<newline>for y in z:\<newline>\<newline>print(y)''"
  have m1: "missingBlock (split_nl ?code) 1" and m0: "\<not> missingBlock (split_nl ?code) 0"
    unfolding missingBlock_iff by code_simp+
  have before: "\<forall>m < 1. \<not> missingBlock (split_nl ?code) m"
    using m0 by (simp del: split_nl.simps)
  have msg: "indentMessage 1 (trim (split_nl ?code ! 1)) =
      ''Line 2: Expected indented block after '' @ [CHR 0x27] @ ''for y in z:'' @ [CHR 0x27]"
    by code_simp
  have "validatePythonSyntax ?code = invalid (indentMessage 1 (trim (split_nl ?code ! 1)))"
    by (rule validatePythonSyntax_missing_block
          [of ?code 1, THEN conjunct2, THEN conjunct1, THEN mp, OF conjI [OF m1 before]])
  then have "validatePythonSyntax ?code =
      invalid (''Line 2: Expected indented block after '' @ [CHR 0x27] @ ''for y in z:'' @ [CHR 0x27])"
    by (simp only: msg)
  with m1 m0 show ?thesis
    by (intro conjI)
qed

section \<open>The order of the balance checks\<close>

text \<open>
  Claim C6. When no line fails the indentation check, the validator looks at the three
  counters, as they stand after all lines, in the order parentheses, square brackets,
  curly braces, and returns the message of the first one that is not zero (and the
  valid result when all are zero). In particular \<^verbatim>\<open>"x = (1, 2\n"\<close> is invalid with
  the message \<^verbatim>\<open>Unmatched parentheses in code\<close>.
\<close>

theorem validatePythonSyntax_balance_order:
  "((\<forall>i \<in> {0 ..< length (split_nl code)}. \<not> missingBlock (split_nl code) i) \<longrightarrow>
      validatePythonSyntax code =
        (if parenCount (countLines (split_nl code) zeroCounts) \<noteq> 0
           then invalid ''Unmatched parentheses in code''
         else if bracketCount (countLines (split_nl code) zeroCounts) \<noteq> 0
           then invalid ''Unmatched square brackets in code''
         else if braceCount (countLines (split_nl code) zeroCounts) \<noteq> 0
           then invalid ''Unmatched curly braces in code''
         else valid)) \<and>
   validatePythonSyntax ''x = (1, 2\<newline>'' = invalid ''Unmatched parentheses in code''"
proof (intro conjI impI)
  assume "\<forall>i \<in> {0 ..< length (split_nl code)}. \<not> missingBlock (split_nl code) i"
  then have "validateLoop (split_nl code) 0 zeroCounts =
      Inr (countLines (drop 0 (split_nl code)) zeroCounts)"
    by (intro validateLoop_pass) simp
  then show "validatePythonSyntax code =
        (if parenCount (countLines (split_nl code) zeroCounts) \<noteq> 0
           then invalid ''Unmatched parentheses in code''
         else if bracketCount (countLines (split_nl code) zeroCounts) \<noteq> 0
           then invalid ''Unmatched square brackets in code''
         else if braceCount (countLines (split_nl code) zeroCounts) \<noteq> 0
           then invalid ''Unmatched curly braces in code''
         else valid)"
    by (simp add: validatePythonSyntax_def balanceCheck_def del: split_nl.simps)
next
  show "validatePythonSyntax ''x = (1, 2\<newline>'' = invalid ''Unmatched parentheses in code''"
    by code_simp
qed

theorem validatePythonSyntax_balance_order_witness:
  "length (split_nl ''x = [1, {2, (3'') = 1 \<and>
   \<not> missingBlock (split_nl ''x = [1, {2, (3'') 0 \<and>
   countLines (split_nl ''x = [1, {2, (3'') zeroCounts =
     \<lparr> parenCount = 1, bracketCount = 1, braceCount = 1 \<rparr> \<and>
   validatePythonSyntax ''x = [1, {2, (3'' = invalid ''Unmatched parentheses in code''"
proof -
  let ?code = "''x = [1, {2, (3''"
  have len: "length (split_nl ?code) = 1"
    and cnt: "countLines (split_nl ?code) zeroCounts =
      \<lparr> parenCount = 1, bracketCount = 1, braceCount = 1 \<rparr>"
    by code_simp+
  have m0: "\<not> missingBlock (split_nl ?code) 0"
    unfolding missingBlock_iff by code_simp
  have none: "\<forall>i \<in> {0 ..< length (split_nl ?code)}. \<not> missingBlock (split_nl ?code) i"
    unfolding len using m0 by (simp del: split_nl.simps)
  have "validatePythonSyntax ?code =
        (if parenCount (countLines (split_nl ?code) zeroCounts) \<noteq> 0
           then invalid ''Unmatched parentheses in code''
         else if bracketCount (countLines (split_nl ?code) zeroCounts) \<noteq> 0
           then invalid ''Unmatched square brackets in code''
         else if braceCount (countLines (split_nl ?code) zeroCounts) \<noteq> 0
           then invalid ''Unmatched curly braces in code''
         else valid)"
    by (rule validatePythonSyntax_balance_order [of ?code, THEN conjunct1, THEN mp, OF none])
  then have "validatePythonSyntax ?code = invalid ''Unmatched parentheses in code''"
    unfolding cnt by simp
  with len m0 cnt show ?thesis
    by (intro conjI)
qed

section \<open>A colon line with nothing after it\<close>

text \<open>
  Claim C10. When every line that ends (trimmed) with a colon and does not start with
  \<^verbatim>\<open>#\<close> is followed by blank lines only, or by nothing, the indentation check never
  fails: the result is the result of the balance checks, and it is no
  \<^verbatim>\<open>Expected indented block\<close> message. The line \<^verbatim>\<open>if True:\<close> alone, or followed by
  blank lines only, is valid.
\<close>

theorem validatePythonSyntax_colon_at_end:
  "((\<forall>i \<in> {0 ..< length (split_nl code)}.
       endsWith (trim (split_nl code ! i)) '':'' \<and> \<not> startsWith (trim (split_nl code ! i)) ''#''
       \<longrightarrow> (\<forall>k \<in> {i + 1 ..< length (split_nl code)}. trim (split_nl code ! k) = [])) \<longrightarrow>
      validatePythonSyntax code = balanceCheck (countLines (split_nl code) zeroCounts) \<and>
      (\<forall>n t. validatePythonSyntax code \<noteq> invalid (indentMessage n t))) \<and>
   validatePythonSyntax ''if True:'' = valid \<and>
   validatePythonSyntax ''if True:\<newline>\<newline>  \<newline>'' = valid"
proof (intro conjI impI)
  let ?L = "split_nl code"
  assume h: "\<forall>i \<in> {0 ..< length ?L}.
       endsWith (trim (?L ! i)) '':'' \<and> \<not> startsWith (trim (?L ! i)) ''#''
       \<longrightarrow> (\<forall>k \<in> {i + 1 ..< length ?L}. trim (?L ! k) = [])"
  have none: "\<not> missingBlock ?L m" for m
    using h by (rule none_after)
  then have "validateLoop ?L 0 zeroCounts = Inr (countLines (drop 0 ?L) zeroCounts)"
    by (intro validateLoop_pass) simp
  then show r: "validatePythonSyntax code = balanceCheck (countLines ?L zeroCounts)"
    by (simp add: validatePythonSyntax_def del: split_nl.simps)
  show "\<forall>n t. validatePythonSyntax code \<noteq> invalid (indentMessage n t)"
    unfolding r using balanceCheck_not_indent by simp
qed (code_simp, code_simp)

theorem validatePythonSyntax_colon_at_end_witness:
  "length (split_nl ''while (x:\<newline>'') = 2 \<and>
   endsWith (trim (split_nl ''while (x:\<newline>'' ! 0)) '':'' \<and>
   trim (split_nl ''while (x:\<newline>'' ! 1) = [] \<and>
   validatePythonSyntax ''while (x:\<newline>'' = invalid ''Unmatched parentheses in code''"
proof -
  let ?code = "''while (x:\<newline>''"
  have len: "length (split_nl ?code) = 2"
    and e0: "endsWith (trim (split_nl ?code ! 0)) '':''"
    and b1: "trim (split_nl ?code ! 1) = []"
    and bal: "balanceCheck (countLines (split_nl ?code) zeroCounts) =
      invalid ''Unmatched parentheses in code''"
    by code_simp+
  have hyp: "\<forall>i \<in> {0 ..< length (split_nl ?code)}.
       endsWith (trim (split_nl ?code ! i)) '':'' \<and> \<not> startsWith (trim (split_nl ?code ! i)) ''#''
       \<longrightarrow> (\<forall>k \<in> {i + 1 ..< length (split_nl ?code)}. trim (split_nl ?code ! k) = [])"
  proof (intro ballI impI)
    fix i k
    assume "i \<in> {0 ..< length (split_nl ?code)}" and "k \<in> {i + 1 ..< length (split_nl ?code)}"
    then have "k = 1" unfolding len by auto
    with b1 show "trim (split_nl ?code ! k) = []" by (simp only:)
  qed
  have "validatePythonSyntax ?code = balanceCheck (countLines (split_nl ?code) zeroCounts)"
    by (rule validatePythonSyntax_colon_at_end
          [of ?code, THEN conjunct1, THEN mp, OF hyp, THEN conjunct1])
  then have "validatePythonSyntax ?code = invalid ''Unmatched parentheses in code''"
    by (simp only: bal)
  with len e0 b1 show ?thesis
    by (intro conjI)
qed

section \<open>Lines kept by the docstring filter\<close>

lemma opensDocstring_Nil: "\<not> opensDocstring []"
  by (simp add: opensDocstring_def startsWith_def tripleDouble_def tripleSingle_def)

lemma extractLoop_kept:
  "l \<in> set (extractLoop ls inD q) \<Longrightarrow> l \<in> set ls \<and> \<not> opensDocstring (trim l)"
proof (induction ls arbitrary: inD q)
  case Nil
  then show ?case by simp
next
  case (Cons a ls)
  show ?case
  proof (cases "\<not> inD \<and> opensDocstring (trim a)")
    case True
    with Cons.prems obtain inD' q' where "l \<in> set (extractLoop ls inD' q')"
      by (auto simp: Let_def)
    from Cons.IH[OF this] show ?thesis by simp
  next
    case False
    show ?thesis
    proof (cases inD)
      case True
      with Cons.prems obtain inD' where "l \<in> set (extractLoop ls inD' q)"
        by (auto split: if_splits)
      from Cons.IH[OF this] show ?thesis by simp
    next
      case nd: False
      with False have no: "\<not> opensDocstring (trim a)" by simp
      with nd Cons.prems have "l = a \<or> l \<in> set (extractLoop ls False q)"
        by auto
      then show ?thesis
      proof
        assume "l = a"
        with no show ?thesis by simp
      next
        assume "l \<in> set (extractLoop ls False q)"
        from Cons.IH[OF this] show ?thesis by simp
      qed
    qed
  qed
qed

lemma extractLoop_id:
  "(\<And>l. l \<in> set ls \<Longrightarrow> \<not> opensDocstring (trim l)) \<Longrightarrow> extractLoop ls False q = ls"
  by (induction ls) auto

lemma split_nl_line: "CHR 0x0A \<notin> set l \<Longrightarrow> split_nl l = [l]"
  by (induction l) auto

lemma split_nl_append:
  "CHR 0x0A \<notin> set l \<Longrightarrow> split_nl (l @ CHR 0x0A # rest) = l # split_nl rest"
  by (induction l) auto

lemma split_nl_join_nl:
  "ls \<noteq> [] \<Longrightarrow> (\<And>l. l \<in> set ls \<Longrightarrow> CHR 0x0A \<notin> set l) \<Longrightarrow> split_nl (join_nl ls) = ls"
proof (induction ls rule: join_nl.induct)
  case 1
  then show ?case by simp
next
  case (2 l)
  then show ?case by (simp add: split_nl_line)
next
  case (3 l v va)
  have "split_nl (join_nl (v # va)) = v # va"
    using 3 by simp
  moreover have "CHR 0x0A \<notin> set l" using 3 by simp
  ultimately show ?case by (simp add: split_nl_append)
qed

lemma split_nl_no_newline: "l \<in> set (split_nl s) \<Longrightarrow> CHR 0x0A \<notin> set l"
proof (induction s arbitrary: l)
  case Nil
  then show ?case by simp
next
  case (Cons c cs)
  obtain h t where ht: "split_nl cs = h # t"
    using split_nl_nonempty[of cs] by (cases "split_nl cs") auto
  show ?case
  proof (cases "c = CHR 0x0A")
    case True
    with Cons show ?thesis by auto
  next
    case False
    with Cons.prems ht have "l = c # h \<or> l \<in> set t" by simp
    then show ?thesis
    proof
      assume "l = c # h"
      moreover have "CHR 0x0A \<notin> set h" using Cons.IH[of h] ht by simp
      ultimately show ?thesis using False by auto
    next
      assume "l \<in> set t"
      then show ?thesis using Cons.IH[of l] ht by simp
    qed
  qed
qed

section \<open>Removing docstrings twice\<close>

text \<open>
  Claim C9. Applying \<^verbatim>\<open>extractCodeWithoutDocstrings\<close> to its own output gives that
  output again. The claim asks for it on the inputs whose output has no triple-quoted
  block left; it holds for every input, because a line whose trimmed text starts with
  a triple quote is never copied to the output, so the second pass never enters a
  docstring and copies every line.
\<close>

theorem extractCodeWithoutDocstrings_idempotent:
  "extractCodeWithoutDocstrings (extractCodeWithoutDocstrings code) =
     extractCodeWithoutDocstrings code"
proof -
  define out where "out = extractLoop (split_nl code) False []"
  have kept: "l \<in> set (split_nl code) \<and> \<not> opensDocstring (trim l)" if "l \<in> set out" for l
    using that unfolding out_def by (rule extractLoop_kept)
  show ?thesis
  proof (cases "out = []")
    case True
    have "extractLoop [[]] False [] = [[]]"
      by (rule extractLoop_id) (simp add: opensDocstring_Nil)
    with True show ?thesis
      by (simp add: extractCodeWithoutDocstrings_def out_def[symmetric])
  next
    case False
    have "split_nl (join_nl out) = out"
      using False kept split_nl_no_newline by (intro split_nl_join_nl) auto
    moreover have "extractLoop out False [] = out"
      using kept by (intro extractLoop_id) auto
    ultimately show ?thesis
      by (simp add: extractCodeWithoutDocstrings_def out_def[symmetric])
  qed
qed

theorem extractCodeWithoutDocstrings_idempotent_witness:
  "extractCodeWithoutDocstrings
     (''def f():\<newline>    '' @ tripleDouble @ ''Adds.\<newline>\<newline>    More.\<newline>    '' @ tripleDouble @
      ''\<newline>    return 1'') = ''def f():\<newline>    return 1'' \<and>
   extractCodeWithoutDocstrings ''def f():\<newline>    return 1'' = ''def f():\<newline>    return 1''"
proof -
  let ?code = "''def f():\<newline>    '' @ tripleDouble @ ''Adds.\<newline>\<newline>    More.\<newline>    '' @ tripleDouble @
      ''\<newline>    return 1''"
  have once: "extractCodeWithoutDocstrings ?code = ''def f():\<newline>    return 1''"
    by code_simp
  from extractCodeWithoutDocstrings_idempotent[of ?code]
  have "extractCodeWithoutDocstrings ''def f():\<newline>    return 1'' = ''def f():\<newline>    return 1''"
    by (simp only: once)
  with once show ?thesis
    by (intro conjI)
qed

end
